theory Spec2Isabelle
  imports Complex_Main
begin

section \<open>Buffered ranges of the player (src/core/ranges.js)\<close>

text \<open>
  A shallow embedding of \<^verbatim>\<open>src/core/ranges.js\<close>. The boundaries of ranges are
  \<^typ>\<open>real\<close>; where the source adds or subtracts and the outcome of a test can hinge on
  the rounding (the query functions and \<^verbatim>\<open>hasRange\<close>), the operations are those of
  double precision, on the type \<open>number\<close> with its infinities and NaN. Arrays are lists,
  mutated in place in the source and passed explicitly here; an index that the source
  decrements before the loop header increments it again is kept unchanged.
\<close>

subsection \<open>Data\<close>

text \<open>The plain \<^verbatim>\<open>{ start, end }\<close> object, and the engine's
  \<^verbatim>\<open>{ start, end, bitrate }\<close> object that extends it.\<close>

record span =
  start :: real
  end' :: real

record range = span +
  bitrate :: nat

text \<open>\<^verbatim>\<open>function BufferedRanges() { this.ranges = []; this.length = 0; }\<close>\<close>

record BufferedRanges =
  ranges :: "range list"
  length' :: nat

definition newBufferedRanges :: BufferedRanges where
  "newBufferedRanges = \<lparr>ranges = [], length' = 0\<rparr>"

text \<open>A foreign object with the ranges capability: a numeric length and the two
  accessors \<^verbatim>\<open>start(i)\<close>, \<^verbatim>\<open>end(i)\<close>.\<close>

record TimeRanges =
  trLength :: nat
  trStart :: "nat \<Rightarrow> real"
  trEnd :: "nat \<Rightarrow> real"

text \<open>What a caller may pass where the source expects "ranges": the engine's own
  collection (\<^verbatim>\<open>instanceof BufferedRanges\<close>) or a foreign one.\<close>

datatype rangesObject = Engine BufferedRanges | Foreign TimeRanges

subsection \<open>JavaScript numbers\<close>

text \<open>A JavaScript number: a finite value, \<^verbatim>\<open>Infinity\<close>, \<^verbatim>\<open>-Infinity\<close> or \<^verbatim>\<open>NaN\<close>.
  The sign of zero is not kept; nothing here observes it.\<close>

datatype number = Finite real | Infinity | MinusInfinity | NaN












datatype error = AssertionError

text \<open>Modelled from the spec: \<^verbatim>\<open>assert\<close> of canal-js-utils/assert is not under src/;
  a failed assertion "aborts the current operation".\<close>

definition assert :: "bool \<Rightarrow> error + unit" where
  "assert c = (if c then Inr () else Inl AssertionError)"

subsection \<open>Tolerant comparisons\<close>

text \<open>\<^verbatim>\<open>var EPSILON = 0.00001\<close>: the double nearest to \<open>10\<^sup>-\<^sup>5\<close>, which is
  \<open>5902958103587057 / 2\<^sup>6\<^sup>9\<close>.\<close>

definition EPSILON :: real where
  "EPSILON = 5902958103587057 / 2 ^ 69"

text \<open>In \<open>nearlyEqual\<close> the difference is taken over the reals. Rounding to nearest is
  monotone and \<open>EPSILON\<close> is a double, so a difference of magnitude \<open>EPSILON\<close> or more
  is rounded to one of magnitude \<open>EPSILON\<close> or more and fails the test either way; the
  evaluations below apply the test only where the difference is a double.\<close>

definition nearlyEqual :: "real \<Rightarrow> real \<Rightarrow> bool" where
  "nearlyEqual a b = (\<bar>a - b\<bar> < EPSILON)"


subsection \<open>The ranges capability\<close>




subsection \<open>Query functions\<close>



text \<open>The second argument of \<^verbatim>\<open>getGap\<close>: a ranges-capable collection
  (\<^verbatim>\<open>isRanges\<close>), an already resolved range, or null.\<close>

datatype rangesOrRange = Ranges rangesObject | ARange "number \<times> number" | Null




subsection \<open>Predicates on ranges\<close>

definition isPointInRange :: "'a span_scheme \<Rightarrow> real \<Rightarrow> bool" where
  "isPointInRange r point = (start r \<le> point \<and> point < end' r)"

definition areOverlappingRanges :: "'a span_scheme \<Rightarrow> 'b span_scheme \<Rightarrow> bool" where
  "areOverlappingRanges r1 r2 =
     (isPointInRange r1 (start r2) \<or> isPointInRange r1 (end' r2) \<or> isPointInRange r2 (start r1))"

fun findOverlappingRange :: "'a span_scheme \<Rightarrow> 'b span_scheme list \<Rightarrow> 'b span_scheme option" where
  "findOverlappingRange r [] = None"
| "findOverlappingRange r (other # others) =
     (if areOverlappingRanges r other then Some other else findOverlappingRange r others)"

definition isContainedInto :: "'a span_scheme \<Rightarrow> 'b span_scheme \<Rightarrow> bool" where
  "isContainedInto r1 r2 = (isPointInRange r1 (start r2) \<and> isPointInRange r1 (end' r2))"

definition areContiguousWithRanges :: "'a span_scheme \<Rightarrow> 'b span_scheme \<Rightarrow> bool" where
  "areContiguousWithRanges r1 r2 =
     (nearlyEqual (start r2) (end' r1) \<or> nearlyEqual (end' r2) (start r1))"

definition unionWithOverlappingOrContiguousRange :: "range \<Rightarrow> range \<Rightarrow> nat \<Rightarrow> range" where
  "unionWithOverlappingOrContiguousRange r1 r2 b =
     \<lparr>start = min (start r1) (start r2), end' = max (end' r1) (end' r2), bitrate = b\<rparr>"

definition isOrdered :: "'a span_scheme \<Rightarrow> 'b span_scheme \<Rightarrow> bool" where
  "isOrdered r1 r2 = (end' r1 \<le> start r2)"

definition sameBitrate :: "range \<Rightarrow> range \<Rightarrow> bool" where
  "sameBitrate r1 r2 = (bitrate r1 = bitrate r2)"

subsection \<open>Array helpers\<close>

text \<open>\<^verbatim>\<open>a.splice(i, n, ...items)\<close> for \<open>0 \<le> i \<le> length a\<close>.\<close>

definition spliceArr :: "'a list \<Rightarrow> nat \<Rightarrow> nat \<Rightarrow> 'a list \<Rightarrow> 'a list" where
  "spliceArr a i n items = take i a @ items @ drop (i + n) a"

subsection \<open>Cleanup passes\<close>

text \<open>\<^verbatim>\<open>ranges.splice(index++, 1)\<close> followed by the loop's own \<^verbatim>\<open>index++\<close>: the
  scan resumes two positions further.\<close>

function removeEmptyLoop :: "range list \<Rightarrow> nat \<Rightarrow> range list" where
  "removeEmptyLoop rs index =
     (if index < length rs then
        (if start (rs ! index) = end' (rs ! index)
         then removeEmptyLoop (spliceArr rs index 1 []) (index + 2)
         else removeEmptyLoop rs (index + 1))
      else rs)"
  by pat_completeness auto
termination
  by (relation "measure (\<lambda>(rs, index). length rs - index)") (auto simp: spliceArr_def)

definition removeEmptyRanges :: "range list \<Rightarrow> range list" where
  "removeEmptyRanges rs = removeEmptyLoop rs 0"

text \<open>\<^verbatim>\<open>ranges.splice(--index, 2, unionRange)\<close> followed by \<^verbatim>\<open>index++\<close>: the index
  is unchanged and the list is one shorter. The source starts at index 1 and never lowers
  the index; the test \<open>0 < index\<close>, always true there, keeps \<open>index - 1\<close> an index of
  the array.\<close>

function mergeContiguousLoop :: "range list \<Rightarrow> nat \<Rightarrow> range list" where
  "mergeContiguousLoop rs index =
     (if index < length rs \<and> 0 < index then
        (let prevRange = rs ! (index - 1); currRange = rs ! index in
         if sameBitrate prevRange currRange \<and> areContiguousWithRanges prevRange currRange
         then mergeContiguousLoop
                (spliceArr rs (index - 1) 2
                   [unionWithOverlappingOrContiguousRange prevRange currRange (bitrate currRange)])
                index
         else mergeContiguousLoop rs (index + 1))
      else rs)"
  by pat_completeness auto
termination
  by (relation "measure (\<lambda>(rs, index). length rs - index)") (auto simp: spliceArr_def)

definition mergeContiguousRanges :: "range list \<Rightarrow> range list" where
  "mergeContiguousRanges rs = mergeContiguousLoop rs 1"

subsection \<open>Insertion\<close>

text \<open>The scan of \<^verbatim>\<open>insertInto\<close>. The result is the array, the index and the added
  range at the moment the loop is left (by \<^verbatim>\<open>break\<close> or by its condition).\<close>

function insertLoop :: "range list \<Rightarrow> nat \<Rightarrow> range \<Rightarrow> range list \<times> nat \<times> range" where
  "insertLoop rs index addedRange =
     (if index < length rs then
        (let currentRange = rs ! index;
             overlapping = areOverlappingRanges addedRange currentRange;
             contiguous = areContiguousWithRanges addedRange currentRange in
         if overlapping \<or> contiguous then
           (if sameBitrate addedRange currentRange then
              insertLoop (spliceArr rs index 1 []) index
                (unionWithOverlappingOrContiguousRange addedRange currentRange (bitrate currentRange))
            else if overlapping then
              (if isContainedInto currentRange addedRange then
                 insertLoop
                   ((spliceArr rs (index + 1) 0 [addedRange])
                      [index := currentRange\<lparr>end' := start addedRange\<rparr>])
                   (index + 2)
                   \<lparr>start = end' addedRange, end' = end' currentRange,
                    bitrate = bitrate currentRange\<rparr>
               else if isContainedInto addedRange currentRange then
                 insertLoop (spliceArr rs index 1 []) index addedRange
               else if start currentRange < start addedRange then
                 insertLoop (rs[index := currentRange\<lparr>end' := start addedRange\<rparr>])
                   (index + 1) addedRange
               else
                 (rs[index := currentRange\<lparr>start := end' addedRange\<rparr>], index, addedRange))
            else (rs, index, addedRange))
         else if index = 0 then
           (if isOrdered addedRange (rs ! 0) then (rs, index, addedRange)
            else insertLoop rs (index + 1) addedRange)
         else
           (if isOrdered (rs ! (index - 1)) addedRange \<and> isOrdered addedRange currentRange
            then (rs, index, addedRange)
            else insertLoop rs (index + 1) addedRange))
      else (rs, index, addedRange))"
  by pat_completeness auto
termination
  by (relation "measure (\<lambda>(rs, index, a). length rs - index)") (auto simp: spliceArr_def)

text \<open>\<^verbatim>\<open>insertInto\<close>: \<open>Inl\<close> is the failed assertion, raised before the array is
  touched; \<open>Inr\<close> carries the array after the call (unchanged when \<open>start = end\<close>).\<close>

definition insertInto :: "range list \<Rightarrow> nat \<Rightarrow> real \<Rightarrow> real \<Rightarrow> error + range list" where
  "insertInto rs b st en =
     (case assert (st \<le> en) of
        Inl e \<Rightarrow> Inl e
      | Inr _ \<Rightarrow>
          if st = en then Inr rs
          else (case insertLoop rs 0 \<lparr>start = st, end' = en, bitrate = b\<rparr> of
                  (rs', index, addedRange) \<Rightarrow>
                    Inr (mergeContiguousRanges
                           (removeEmptyRanges (spliceArr rs' index 0 [addedRange])))))"

subsection \<open>Intersection\<close>

text \<open>\<^verbatim>\<open>ranges.splice(i--, 1); continue\<close> leaves \<open>i\<close> unchanged.\<close>

function intersectLoop :: "range list \<Rightarrow> 'a span_scheme list \<Rightarrow> nat \<Rightarrow> range list" where
  "intersectLoop rs others i =
     (if i < length rs then
        (let r = rs ! i in
         case findOverlappingRange r others of
           None \<Rightarrow> intersectLoop (spliceArr rs i 1 []) others i
         | Some overlappingRange \<Rightarrow>
             (let r1 = (if start overlappingRange > start r
                        then r\<lparr>start := start overlappingRange\<rparr> else r);
                  r2 = (if end' overlappingRange < end' r1
                        then r1\<lparr>end' := end' overlappingRange\<rparr> else r1)
              in intersectLoop (rs[i := r2]) others (i + 1)))
      else rs)"
  by pat_completeness auto
termination
  by (relation "measure (\<lambda>(rs, others, i). length rs - i)") (auto simp: spliceArr_def)

definition intersect :: "range list \<Rightarrow> 'a span_scheme list \<Rightarrow> range list" where
  "intersect rs others = intersectLoop rs others 0"

subsection \<open>The engine's methods\<close>



text \<open>\<^verbatim>\<open>BufferedRanges.prototype.insert\<close>. The first argument is the build flag
  \<^verbatim>\<open>__DEV__\<close>. The result pairs what the call gives back (the error thrown, or the
  array returned) with the engine after the call.\<close>

definition insert' :: "bool \<Rightarrow> BufferedRanges \<Rightarrow> nat \<Rightarrow> real \<Rightarrow> real
    \<Rightarrow> (error + range list) \<times> BufferedRanges" where
  "insert' dev this b st en =
     (case (if dev then (case assert (st \<ge> 0) of Inl e \<Rightarrow> Inl e
                         | Inr _ \<Rightarrow> assert (en - st > 0))
            else Inr ()) of
        Inl e \<Rightarrow> (Inl e, this)
      | Inr _ \<Rightarrow>
          (case insertInto (ranges this) b st en of
             Inl e \<Rightarrow> (Inl e, this)
           | Inr rs' \<Rightarrow> (Inr rs', \<lparr>ranges = rs', length' = length rs'\<rparr>)))"

definition intersect' :: "BufferedRanges \<Rightarrow> 'a span_scheme list \<Rightarrow> range list \<times> BufferedRanges" where
  "intersect' this others =
     (let rs' = intersect (ranges this) others
      in (rs', \<lparr>ranges = rs', length' = length rs'\<rparr>))"

text \<open>A run of \<^verbatim>\<open>insert\<close> calls on one engine; a call that throws leaves the engine as
  it was and the run goes on with the next call.\<close>

fun inserts :: "bool \<Rightarrow> BufferedRanges \<Rightarrow> (nat \<times> real \<times> real) list \<Rightarrow> BufferedRanges" where
  "inserts dev this [] = this"
| "inserts dev this ((b, st, en) # calls) = inserts dev (snd (insert' dev this b st en)) calls"

subsection \<open>Conversion to an array\<close>

text \<open>\<^verbatim>\<open>bufferedToArray\<close> returns an array of objects, and what is asked of it includes
  what it shares with the engine. Here arrays and records live in a store, a list of
  objects in which an address is an index; allocation appends, so an address at or above
  the length of a store is not in use in it.\<close>

type_synonym address = nat

datatype object = RangeObject range | PlainObject span | ArrayObject "address list"

type_synonym store = "object list"

definition alloc :: "store \<Rightarrow> object \<Rightarrow> store \<times> address" where
  "alloc h obj = (h @ [obj], length h)"

fun objStart :: "object \<Rightarrow> real" where
  "objStart (RangeObject r) = start r"
| "objStart (PlainObject p) = start p"
| "objStart (ArrayObject es) = 0"

fun objEnd :: "object \<Rightarrow> real" where
  "objEnd (RangeObject r) = end' r"
| "objEnd (PlainObject p) = end' p"
| "objEnd (ArrayObject es) = 0"

fun elements :: "object \<Rightarrow> address list" where
  "elements (ArrayObject es) = es"
| "elements obj = []"

text \<open>The argument of \<^verbatim>\<open>bufferedToArray\<close>: the engine, with the address of its array
  \<^verbatim>\<open>this.ranges\<close> and its \<^verbatim>\<open>length\<close>, or a foreign collection.\<close>

datatype rangesRef = EngineRef address nat | ForeignRef TimeRanges

fun refLength :: "rangesRef \<Rightarrow> nat" where
  "refLength (EngineRef arr n) = n"
| "refLength (ForeignRef t) = trLength t"

fun refStart :: "store \<Rightarrow> rangesRef \<Rightarrow> nat \<Rightarrow> real" where
  "refStart h (EngineRef arr n) i = objStart (h ! (elements (h ! arr) ! i))"
| "refStart h (ForeignRef t) i = trStart t i"

fun refEnd :: "store \<Rightarrow> rangesRef \<Rightarrow> nat \<Rightarrow> real" where
  "refEnd h (EngineRef arr n) i = objEnd (h ! (elements (h ! arr) ! i))"
| "refEnd h (ForeignRef t) i = trEnd t i"

text \<open>Modelled from the spec: \<^verbatim>\<open>cloneArray\<close> of canal-js-utils/misc is not under src/.
  The spec says of \<^verbatim>\<open>bufferedToArray\<close> that it "produces an ordered sequence of plain
  {start, end} records (bitrate dropped)" and that for the engine's own collection "this is
  a defensive copy (no shared mutable state leaks to the caller)": a new array holding one
  new plain record per element of the engine's array, in order.\<close>

fun cloneRecords :: "store \<Rightarrow> address list \<Rightarrow> store \<times> address list" where
  "cloneRecords h [] = (h, [])"
| "cloneRecords h (e # es) =
     (case alloc h (PlainObject \<lparr>start = objStart (h ! e), end' = objEnd (h ! e)\<rparr>) of
        (h1, c) \<Rightarrow> (case cloneRecords h1 es of (h2, cs) \<Rightarrow> (h2, c # cs)))"

definition cloneArray :: "store \<Rightarrow> address \<Rightarrow> store \<times> address" where
  "cloneArray h arr =
     (case cloneRecords h (elements (h ! arr)) of (h1, cs) \<Rightarrow> alloc h1 (ArrayObject cs))"

text \<open>The loop \<^verbatim>\<open>while (++i < l) a[i] = { start: ranges.start(i), end: ranges.end(i) }\<close>.
  The argument \<open>i\<close> is the index about to be written and \<open>a\<close> the address of the array.
  The slots of \<^verbatim>\<open>Array(l)\<close> are written in ascending order, so the array holds the prefix
  written so far. Each object literal is a new object.\<close>

function bufferedToArrayLoop ::
    "store \<Rightarrow> rangesRef \<Rightarrow> nat \<Rightarrow> nat \<Rightarrow> address \<Rightarrow> store \<times> address" where
  "bufferedToArrayLoop h rs l i a =
     (if i < l
      then (case alloc h (PlainObject \<lparr>start = refStart h rs i, end' = refEnd h rs i\<rparr>) of
              (h1, c) \<Rightarrow>
                bufferedToArrayLoop (h1[a := ArrayObject (elements (h1 ! a) @ [c])]) rs l (i + 1) a)
      else (h, a))"
  by pat_completeness auto
termination
  by (relation "measure (\<lambda>(h, rs, l, i, a). l - i)") auto

text \<open>\<^verbatim>\<open>if (ranges instanceof BufferedRanges) return _.cloneArray(ranges.ranges)\<close>, else
  \<^verbatim>\<open>var a = Array(l)\<close> and the loop.\<close>

fun bufferedToArray :: "store \<Rightarrow> rangesRef \<Rightarrow> store \<times> address" where
  "bufferedToArray h (EngineRef arr n) = cloneArray h arr"
| "bufferedToArray h (ForeignRef t) =
     (case alloc h (ArrayObject []) of
        (h1, a) \<Rightarrow> bufferedToArrayLoop h1 (ForeignRef t) (trLength t) 0 a)"

text \<open>The engine's array is an array of the store, its elements are addresses of the
  store, and the engine's \<^verbatim>\<open>length\<close> is the length of the array.\<close>

fun validRef :: "store \<Rightarrow> rangesRef \<Rightarrow> bool" where
  "validRef h (EngineRef arr n) =
     (arr < length h \<and> n = length (elements (h ! arr)) \<and>
      (\<forall>e \<in> set (elements (h ! arr)). e < length h))"
| "validRef h (ForeignRef t) = True"

subsection \<open>Properties the specification speaks of\<close>

text \<open>The invariant on adjacent ranges: ordered within the tolerance, and never of equal
  bitrate while contiguous.\<close>

fun adjacentPairsOk :: "range list \<Rightarrow> bool" where
  "adjacentPairsOk (r1 # r2 # rs) =
     (end' r1 \<le> start r2 + EPSILON \<and>
      \<not> (sameBitrate r1 r2 \<and> areContiguousWithRanges r1 r2) \<and>
      adjacentPairsOk (r2 # rs))"
| "adjacentPairsOk rs = True"

text \<open>The accessors \<^verbatim>\<open>start(i)\<close> and \<^verbatim>\<open>end(i)\<close> of the engine read
  \<^verbatim>\<open>this.ranges[i]\<close>, which throws beyond the array. The query functions call them below
  \<^verbatim>\<open>length\<close> only, so they are in range as long as the engine's \<^verbatim>\<open>length\<close> is the length
  of its array, as the constructor and both mutators leave it.\<close>

fun lengthMaintained :: "rangesObject \<Rightarrow> bool" where
  "lengthMaintained (Engine this) = (length' this = length (ranges this))"
| "lengthMaintained (Foreign t) = True"

text \<open>A timestamp is covered by a collection when it lies in one of its ranges.\<close>

definition covered :: "real \<Rightarrow> 'a span_scheme list \<Rightarrow> bool" where
  "covered t rs = (\<exists>r \<in> set rs. isPointInRange r t)"

text \<open>Two ranges overlap, in the words of the specification, when some timestamp lies in
  both.\<close>

definition sharesTimestamp :: "'a span_scheme \<Rightarrow> 'b span_scheme \<Rightarrow> bool" where
  "sharesTimestamp r1 r2 = (max (start r1) (start r2) < min (end' r1) (end' r2))"

text \<open>The intersection as the specification words it: a range that overlaps no range of
  \<open>others\<close> is dropped; any other range is clamped to the first range of \<open>others\<close> that
  overlaps it, its bitrate kept.\<close>

definition intersectSpec :: "range list \<Rightarrow> 'a span_scheme list \<Rightarrow> range list" where
  "intersectSpec rs others =
     List.map_filter
       (\<lambda>r. case find (sharesTimestamp r) others of
               None \<Rightarrow> None
             | Some ov \<Rightarrow> Some (r\<lparr>start := max (start r) (start ov), end' := min (end' r) (end' ov)\<rparr>))
       rs"

text \<open>The same traversal with the overlap test of the code.\<close>

definition intersectList :: "range list \<Rightarrow> 'a span_scheme list \<Rightarrow> range list" where
  "intersectList rs others =
     List.map_filter
       (\<lambda>r. case findOverlappingRange r others of
               None \<Rightarrow> None
             | Some ov \<Rightarrow> Some (r\<lparr>start := max (start r) (start ov), end' := min (end' r) (end' ov)\<rparr>))
       rs"


text \<open>What the invariant asks of one adjacent pair, and the part of it that keeps the
  merging pass from joining the pair.\<close>

definition pairOk :: "range \<Rightarrow> range \<Rightarrow> bool" where
  "pairOk r1 r2 =
     (end' r1 \<le> start r2 + EPSILON \<and> \<not> (sameBitrate r1 r2 \<and> areContiguousWithRanges r1 r2))"

definition notMerged :: "range \<Rightarrow> range \<Rightarrow> bool" where
  "notMerged r1 r2 = (\<not> (sameBitrate r1 r2 \<and> areContiguousWithRanges r1 r2))"

section \<open>Theorems\<close>

declare removeEmptyLoop.simps [simp del]
declare mergeContiguousLoop.simps [simp del]
declare insertLoop.simps [simp del]
declare intersectLoop.simps [simp del]
declare bufferedToArrayLoop.simps [simp del]

lemmas eval_defs =
  insert'_def insertInto_def assert_def insertLoop.simps spliceArr_def
  removeEmptyRanges_def removeEmptyLoop.simps mergeContiguousRanges_def
  mergeContiguousLoop.simps areOverlappingRanges_def areContiguousWithRanges_def
  isPointInRange_def isContainedInto_def isOrdered_def nearlyEqual_def EPSILON_def
  sameBitrate_def unionWithOverlappingOrContiguousRange_def newBufferedRanges_def Let_def


subsection \<open>Sums and differences of small integers are exact\<close>



subsection \<open>Coverage of lists\<close>

lemma covered_Cons: "covered t (r # rs) = (isPointInRange r t \<or> covered t rs)"
  by (simp add: covered_def)

subsection \<open>Insertion next to a range of another bitrate\<close>

text \<open>
  Claim C1 (the invariant after any run of valid inserts) fails on the code. After
  \<^verbatim>\<open>insert(1, 0, 10)\<close> and \<^verbatim>\<open>insert(2, 10 + 2^-20, 20)\<close> on an empty engine the
  second range is stored before the first: it is contiguous with the first within the
  tolerance without overlapping it, the bitrates differ, and the scan stops at index 0.
  The adjacent pair then violates \<open>end(0) \<le> start(1) + \<epsilon>\<close>.
\<close>

theorem insert_contiguous_after_out_of_order:
  "ranges (inserts dev newBufferedRanges [(1, 0, 10), (2, 10 + 1 / 1048576, 20)]) =
     [\<lparr>start = 10 + 1 / 1048576, end' = 20, bitrate = 2\<rparr>, \<lparr>start = 0, end' = 10, bitrate = 1\<rparr>]
   \<and> \<not> adjacentPairsOk (ranges (inserts dev newBufferedRanges [(1, 0, 10), (2, 10 + 1 / 1048576, 20)]))"
  by (cases dev) (simp_all add: eval_defs)

text \<open>
  Claim C3 (insert is idempotent on reachable states) fails on the code, from the same
  defect. On the state reached above, \<^verbatim>\<open>insert(1, 14, 15)\<close> applied once and applied
  twice give range lists that differ in the order of their second and third ranges.
\<close>

theorem insert_twice_differs:
  "ranges (inserts dev newBufferedRanges [(1, 0, 10), (2, 10 + 1 / 1048576, 20), (1, 14, 15)]) =
     [\<lparr>start = 10 + 1 / 1048576, end' = 14, bitrate = 2\<rparr>, \<lparr>start = 14, end' = 15, bitrate = 1\<rparr>,
      \<lparr>start = 0, end' = 10, bitrate = 1\<rparr>, \<lparr>start = 15, end' = 20, bitrate = 2\<rparr>]
   \<and> ranges (inserts dev newBufferedRanges [(1, 0, 10), (2, 10 + 1 / 1048576, 20), (1, 14, 15), (1, 14, 15)]) =
     [\<lparr>start = 10 + 1 / 1048576, end' = 14, bitrate = 2\<rparr>, \<lparr>start = 0, end' = 10, bitrate = 1\<rparr>,
      \<lparr>start = 14, end' = 15, bitrate = 1\<rparr>, \<lparr>start = 15, end' = 20, bitrate = 2\<rparr>]"
  by (cases dev) (simp_all add: eval_defs)

subsection \<open>Zero-length ranges after an intersection\<close>

text \<open>The pruning pass resumes two positions after a removal, so of two zero-length
  ranges in a row the second one stays. Such a pair arises from an intersection, and a later
  insertion does not remove it.\<close>

lemma removeEmptyRanges_skips_after_removal:
  "intersect [\<lparr>start = 5, end' = 15, bitrate = 1\<rparr>, \<lparr>start = 20, end' = 30, bitrate = 1\<rparr>]
     [\<lparr>start = 0, end' = 5\<rparr>, \<lparr>start = 18, end' = 20\<rparr>] =
     [\<lparr>start = 5, end' = 5, bitrate = 1\<rparr>, \<lparr>start = 20, end' = 20, bitrate = 1\<rparr>]"
  "insertInto [\<lparr>start = 5, end' = 5, bitrate = 1\<rparr>, \<lparr>start = 20, end' = 20, bitrate = 1\<rparr>] 1 100 110 =
     Inr [\<lparr>start = 20, end' = 20, bitrate = 1\<rparr>, \<lparr>start = 100, end' = 110, bitrate = 1\<rparr>]"
  by (simp_all add: eval_defs intersect_def intersectLoop.simps)

text \<open>
  Claim C4 (every stored range has \<open>start < end\<close> after insert and after intersect) fails
  on the code for intersect. The engine holding \<open>{5, 15}\<close>, reached by
  \<^verbatim>\<open>insert(1, 5, 15)\<close>, intersected with \<open>[{0, 5}]\<close> keeps the range \<open>{5, 5}\<close>:
  the other range counts as overlapping because its end is the range's start, the end is
  clamped to 5, and intersect has no pruning pass.
\<close>

theorem intersect_leaves_empty_range:
  "insert' dev newBufferedRanges 1 5 15 =
     (Inr [\<lparr>start = 5, end' = 15, bitrate = 1\<rparr>],
      \<lparr>ranges = [\<lparr>start = 5, end' = 15, bitrate = 1\<rparr>], length' = 1\<rparr>)
   \<and> intersect' \<lparr>ranges = [\<lparr>start = 5, end' = 15, bitrate = 1\<rparr>], length' = 1\<rparr>
        [\<lparr>start = 0, end' = 5\<rparr>] =
     ([\<lparr>start = 5, end' = 5, bitrate = 1\<rparr>],
      \<lparr>ranges = [\<lparr>start = 5, end' = 5, bitrate = 1\<rparr>], length' = 1\<rparr>)"
  by (cases dev) (simp_all add: eval_defs intersect'_def intersect_def intersectLoop.simps)


subsection \<open>The free function getRange and getGap\<close>













lemma lengthMaintained_new: "lengthMaintained (Engine newBufferedRanges)"
  by (simp add: newBufferedRanges_def)

lemma lengthMaintained_insert:
  "lengthMaintained (Engine this) \<Longrightarrow> lengthMaintained (Engine (snd (insert' dev this b st en)))"
  by (auto simp: insert'_def split: sum.splits)

lemma lengthMaintained_intersect:
  "lengthMaintained (Engine (snd (intersect' this others)))"
  by (simp add: intersect'_def Let_def)




subsection \<open>The engine method hasRange\<close>







subsection \<open>Rejected and empty insertions\<close>

text \<open>
  Claim C9. \<^verbatim>\<open>insert\<close> with \<open>start > end\<close> fails an assertion, in either build, and
  the engine is as it was; outside validating builds \<^verbatim>\<open>insert\<close> with \<open>start = end\<close>
  returns the array unchanged.
\<close>

theorem insert_rejected_or_noop:
  "(en < st \<longrightarrow> insert' dev this b st en = (Inl AssertionError, this))
   \<and> fst (insert' False this b st st) = Inr (ranges this)
   \<and> ranges (snd (insert' False this b st st)) = ranges this"
  by (cases dev) (simp_all add: insert'_def insertInto_def assert_def)

theorem insert_rejected_or_noop_witness:
  "insert' True \<lparr>ranges = [\<lparr>start = 0, end' = 10, bitrate = 1\<rparr>], length' = 1\<rparr> 2 7 3 =
     (Inl AssertionError, \<lparr>ranges = [\<lparr>start = 0, end' = 10, bitrate = 1\<rparr>], length' = 1\<rparr>)
   \<and> insert' False \<lparr>ranges = [\<lparr>start = 0, end' = 10, bitrate = 1\<rparr>], length' = 1\<rparr> 2 7 3 =
     (Inl AssertionError, \<lparr>ranges = [\<lparr>start = 0, end' = 10, bitrate = 1\<rparr>], length' = 1\<rparr>)"
  using insert_rejected_or_noop
          [of 3 7 True "\<lparr>ranges = [\<lparr>start = 0, end' = 10, bitrate = 1\<rparr>], length' = 1\<rparr>" 2]
        insert_rejected_or_noop
          [of 3 7 False "\<lparr>ranges = [\<lparr>start = 0, end' = 10, bitrate = 1\<rparr>], length' = 1\<rparr>" 2]
  by simp

subsection \<open>Intersection\<close>

lemma findOverlappingRange_Some:
  "findOverlappingRange r others = Some ov \<Longrightarrow> ov \<in> set others \<and> areOverlappingRanges r ov"
  by (induction others) (auto split: if_splits)

lemma intersectList_Cons:
  "intersectList (r # rs) others =
     (case findOverlappingRange r others of
        None \<Rightarrow> intersectList rs others
      | Some ov \<Rightarrow> r\<lparr>start := max (start r) (start ov), end' := min (end' r) (end' ov)\<rparr>
                   # intersectList rs others)"
  by (simp add: intersectList_def split: option.splits)

lemma intersectLoop_list:
  "i \<le> length rs \<Longrightarrow> intersectLoop rs others i = take i rs @ intersectList (drop i rs) others"
proof (induction rs others i rule: intersectLoop.induct)
  case (1 rs others i)
  show ?case
  proof (cases "i < length rs")
    case False
    with "1.prems" show ?thesis
      by (subst intersectLoop.simps) (simp add: intersectList_def)
  next
    case True
    then have dr: "drop i rs = rs ! i # drop (Suc i) rs"
      by (simp add: Cons_nth_drop_Suc)
    show ?thesis
    proof (cases "findOverlappingRange (rs ! i) others")
      case None
      have "intersectLoop (spliceArr rs i 1 []) others i =
            take i (spliceArr rs i 1 []) @ intersectList (drop i (spliceArr rs i 1 [])) others"
        using "1.IH"(1) [OF True refl None] True by (simp add: spliceArr_def)
      moreover have "take i (spliceArr rs i 1 []) = take i rs"
        using True by (simp add: spliceArr_def)
      moreover have "drop i (spliceArr rs i 1 []) = drop (Suc i) rs"
        using True by (simp add: spliceArr_def)
      ultimately show ?thesis
        using True None
        by (subst intersectLoop.simps) (simp add: dr intersectList_Cons)
    next
      case (Some ov)
      define r1 where "r1 = (if start ov > start (rs ! i) then (rs ! i)\<lparr>start := start ov\<rparr> else rs ! i)"
      define r2 where "r2 = (if end' ov < end' r1 then r1\<lparr>end' := end' ov\<rparr> else r1)"
      have r2eq: "r2 = (rs ! i)\<lparr>start := max (start (rs ! i)) (start ov),
                                 end' := min (end' (rs ! i)) (end' ov)\<rparr>"
        by (auto simp: r1_def r2_def max_def min_def)
      have step: "intersectLoop rs others i = intersectLoop (rs[i := r2]) others (i + 1)"
        using True Some
        by (subst intersectLoop.simps) (simp add: r1_def r2_def Let_def)
      have "intersectLoop (rs[i := r2]) others (i + 1) =
            take (i + 1) (rs[i := r2]) @ intersectList (drop (i + 1) (rs[i := r2])) others"
        unfolding r1_def r2_def
        by (rule "1.IH"(2) [OF True refl Some refl refl]) (use True in simp)
      moreover have "take (i + 1) (rs[i := r2]) = take i rs @ [r2]"
        using True by (simp add: take_Suc_conv_app_nth)
      moreover have "drop (i + 1) (rs[i := r2]) = drop (Suc i) rs"
        by simp
      ultimately show ?thesis
        using step Some by (simp add: dr intersectList_Cons r2eq)
    qed
  qed
qed

lemma intersectList_Nil: "intersectList [] others = []"
  by (simp add: intersectList_def)

lemma covered_intersectList:
  "covered t (intersectList rs others) \<Longrightarrow> covered t rs \<and> covered t others"
proof (induction rs)
  case Nil
  then show ?case by (simp add: intersectList_Nil covered_def)
next
  case (Cons r rs)
  show ?case
  proof (cases "findOverlappingRange r others")
    case None
    with Cons show ?thesis by (simp add: intersectList_Cons covered_Cons)
  next
    case (Some ov)
    from findOverlappingRange_Some [OF Some] have ov: "ov \<in> set others" by simp
    from Cons.prems Some
    consider "isPointInRange (r\<lparr>start := max (start r) (start ov), end' := min (end' r) (end' ov)\<rparr>) t"
      | "covered t (intersectList rs others)"
      by (auto simp: intersectList_Cons covered_Cons)
    then show ?thesis
    proof cases
      case 1
      then have "isPointInRange r t" "isPointInRange ov t"
        by (auto simp: isPointInRange_def)
      with ov show ?thesis by (auto simp: covered_def)
    next
      case 2
      with Cons.IH show ?thesis by (simp add: covered_Cons)
    qed
  qed
qed

text \<open>For ranges that are not empty, the overlap test of the code differs from sharing a
  timestamp only where the other range ends exactly at the start of the engine's range.\<close>

lemma areOverlappingRanges_sharesTimestamp:
  "start r < end' r \<Longrightarrow> start ov < end' ov \<Longrightarrow> end' ov \<noteq> start r \<Longrightarrow>
     areOverlappingRanges r ov = sharesTimestamp r ov"
  by (auto simp: areOverlappingRanges_def isPointInRange_def sharesTimestamp_def)

lemma findOverlappingRange_find:
  "start r < end' r \<Longrightarrow> \<forall>ov \<in> set others. start ov < end' ov \<and> end' ov \<noteq> start r \<Longrightarrow>
     findOverlappingRange r others = find (sharesTimestamp r) others"
  by (induction others) (simp_all add: areOverlappingRanges_sharesTimestamp)

lemma map_filter_cong_set:
  "\<forall>x \<in> set xs. f x = g x \<Longrightarrow> List.map_filter f xs = List.map_filter g xs"
  by (induction xs) (auto split: option.splits)

lemma intersectList_spec:
  assumes "\<forall>r \<in> set rs. start r < end' r" "\<forall>ov \<in> set others. start ov < end' ov"
    "\<forall>r \<in> set rs. \<forall>ov \<in> set others. end' ov \<noteq> start r"
  shows "intersectList rs others = intersectSpec rs others"
proof -
  have "\<forall>r \<in> set rs. findOverlappingRange r others = find (sharesTimestamp r) others"
    using assms by (auto intro!: findOverlappingRange_find)
  then show ?thesis
    unfolding intersectList_def intersectSpec_def
    by (intro map_filter_cong_set) simp
qed

lemma intersectSpec_not_empty:
  "\<forall>x \<in> set (intersectSpec rs others). start x < end' x"
proof (induction rs)
  case Nil
  then show ?case by (simp add: intersectSpec_def)
next
  case (Cons r rs)
  show ?case
  proof (cases "find (sharesTimestamp r) others")
    case None
    with Cons show ?thesis by (simp add: intersectSpec_def)
  next
    case (Some ov)
    then have "sharesTimestamp r ov" by (auto simp: find_Some_iff)
    with Cons Some show ?thesis by (simp add: intersectSpec_def sharesTimestamp_def)
  qed
qed

text \<open>
  Claim C6, as stated, fails: the result is not always the intersection of the two
  coverages. The engine range \<open>{0, 10}\<close> intersected with \<open>[{1, 2}, {3, 4}]\<close> becomes
  \<open>{1, 2}\<close> only, since only the first overlapping range is used: 3.5 is covered by the
  engine and by the others and not by the result.
\<close>

theorem intersect_first_match_only:
  "intersect [\<lparr>start = 0, end' = 10, bitrate = 1\<rparr>] [\<lparr>start = 1, end' = 2\<rparr>, \<lparr>start = 3, end' = 4\<rparr>] =
     [\<lparr>start = 1, end' = 2, bitrate = 1\<rparr>]
   \<and> covered (7 / 2) [\<lparr>start = 0, end' = 10, bitrate = 1\<rparr>]
   \<and> covered (7 / 2) [\<lparr>start = 1, end' = 2\<rparr>, \<lparr>start = 3, end' = 4\<rparr>]
   \<and> \<not> covered (7 / 2)
        (intersect [\<lparr>start = 0, end' = 10, bitrate = 1\<rparr>] [\<lparr>start = 1, end' = 2\<rparr>, \<lparr>start = 3, end' = 4\<rparr>])"
  by (simp add: intersect_def intersectLoop.simps spliceArr_def areOverlappingRanges_def
        isPointInRange_def covered_def Let_def)

text \<open>
  Claim C6 as amended. Let no engine range and no range of \<open>others\<close> be empty, and let no
  range of \<open>others\<close> end exactly where an engine range starts. Then \<^verbatim>\<open>intersect(others)\<close>
  removes every engine range that shares no timestamp with a range of \<open>others\<close> and
  clamps every other engine range to the first range of \<open>others\<close> it shares a timestamp
  with (start raised to that range's start when later, end lowered to its end when
  earlier), the bitrate kept, and every range left has \<open>start < end\<close>. Without those
  conditions too, every timestamp the result covers is covered by the engine's former
  ranges and by \<open>others\<close>. \<open>[{0, 10}]\<close> intersected with \<open>[{5, 8}]\<close> is \<open>[{5, 8}]\<close> with
  the engine range's bitrate.
\<close>

theorem intersect_clamps_to_first_overlap:
  "((\<forall>r \<in> set rs. start r < end' r) \<and> (\<forall>ov \<in> set others. start ov < end' ov) \<and>
    (\<forall>r \<in> set rs. \<forall>ov \<in> set others. end' ov \<noteq> start r)
    \<longrightarrow> intersect rs others = intersectSpec rs others \<and>
        (\<forall>x \<in> set (intersect rs others). start x < end' x))
   \<and> (\<forall>t. covered t (intersect rs others) \<longrightarrow> covered t rs \<and> covered t others)
   \<and> intersect [\<lparr>start = 0, end' = 10, bitrate = b\<rparr>] [\<lparr>start = 5, end' = 8\<rparr>] =
       [\<lparr>start = 5, end' = 8, bitrate = b\<rparr>]"
proof -
  have l: "intersect rs others = intersectList rs others"
    using intersectLoop_list [of 0 rs others] by (simp add: intersect_def)
  have a: "intersect rs others = intersectSpec rs others \<and>
        (\<forall>x \<in> set (intersect rs others). start x < end' x)"
    if "(\<forall>r \<in> set rs. start r < end' r) \<and> (\<forall>ov \<in> set others. start ov < end' ov) \<and>
      (\<forall>r \<in> set rs. \<forall>ov \<in> set others. end' ov \<noteq> start r)"
    using that intersectList_spec [of rs others] intersectSpec_not_empty [of rs others] l
    by simp
  have c: "intersect [\<lparr>start = 0, end' = 10, bitrate = b\<rparr>] [\<lparr>start = 5, end' = 8\<rparr>] =
       [\<lparr>start = 5, end' = 8, bitrate = b\<rparr>]"
    by (simp add: intersect_def intersectLoop.simps spliceArr_def areOverlappingRanges_def
        isPointInRange_def Let_def)
  have s: "\<forall>t. covered t (intersect rs others) \<longrightarrow> covered t rs \<and> covered t others"
    unfolding l using covered_intersectList [of _ rs others] by blast
  from a c s show ?thesis by blast
qed

theorem intersect_clamps_to_first_overlap_witness:
  "intersect [\<lparr>start = 0, end' = 10, bitrate = 1\<rparr>, \<lparr>start = 20, end' = 30, bitrate = 2\<rparr>]
     [\<lparr>start = 5, end' = 8\<rparr>] = [\<lparr>start = 5, end' = 8, bitrate = 1\<rparr>]
   \<and> covered 6 [\<lparr>start = 0, end' = 10, bitrate = 1\<rparr>, \<lparr>start = 20, end' = 30, bitrate = 2\<rparr>]
   \<and> covered 6 [\<lparr>start = 5, end' = 8\<rparr>]"
proof -
  let ?rs = "[\<lparr>start = 0, end' = 10, bitrate = 1\<rparr>, \<lparr>start = 20, end' = 30, bitrate = 2\<rparr>]"
  let ?os = "[\<lparr>start = 5, end' = 8\<rparr>]"
  note th = intersect_clamps_to_first_overlap [of ?rs ?os 1]
  have h: "(\<forall>r \<in> set ?rs. start r < end' r) \<and> (\<forall>ov \<in> set ?os. start ov < end' ov) \<and>
    (\<forall>r \<in> set ?rs. \<forall>ov \<in> set ?os. end' ov \<noteq> start r)"
    by simp
  from th h have "intersect ?rs ?os = intersectSpec ?rs ?os" by blast
  then have e: "intersect ?rs ?os = [\<lparr>start = 5, end' = 8, bitrate = 1\<rparr>]"
    by (simp add: intersectSpec_def sharesTimestamp_def)
  have "covered 6 (intersect ?rs ?os)"
    unfolding e by (simp add: covered_def isPointInRange_def)
  with th have "covered 6 ?rs \<and> covered 6 ?os" by blast
  with e show ?thesis by simp
qed

subsection \<open>Conversion to an array\<close>

lemma cloneRecords_fresh:
  "\<forall>e \<in> set es. e < length h \<Longrightarrow>
     cloneRecords h es =
       (h @ map (\<lambda>e. PlainObject \<lparr>start = objStart (h ! e), end' = objEnd (h ! e)\<rparr>) es,
        [length h ..< length h + length es])"
proof (induction es arbitrary: h)
  case Nil
  then show ?case by simp
next
  case (Cons e es)
  let ?obj = "PlainObject \<lparr>start = objStart (h ! e), end' = objEnd (h ! e)\<rparr>"
  from Cons.prems have v: "\<forall>x \<in> set es. x < length (h @ [?obj])" by auto
  have same: "map (\<lambda>x. PlainObject \<lparr>start = objStart ((h @ [?obj]) ! x),
                                     end' = objEnd ((h @ [?obj]) ! x)\<rparr>) es =
              map (\<lambda>x. PlainObject \<lparr>start = objStart (h ! x), end' = objEnd (h ! x)\<rparr>) es"
    using Cons.prems by (auto simp: nth_append)
  have "[length h ..< length h + length (e # es)] =
        length h # [length (h @ [?obj]) ..< length (h @ [?obj]) + length es]"
    by (simp add: upt_conv_Cons del: upt_Suc)
  with Cons.IH [OF v] same show ?case
    by (simp add: alloc_def del: upt_Suc)
qed

lemma bufferedToArrayLoop_fresh:
  "i \<le> l \<Longrightarrow>
     bufferedToArrayLoop (pre @ ArrayObject es # objs) (ForeignRef t) l i (length pre) =
       (pre @ ArrayObject (es @ [Suc (length pre + length objs) ..<
                                   Suc (length pre + length objs) + (l - i)]) #
          (objs @ map (\<lambda>k. PlainObject \<lparr>start = trStart t k, end' = trEnd t k\<rparr>) [i ..< l]),
        length pre)"
proof (induction "l - i" arbitrary: i es objs)
  case 0
  then show ?case
    by (subst bufferedToArrayLoop.simps) simp
next
  case (Suc k)
  then have lt: "i < l" by simp
  let ?h = "pre @ ArrayObject es # objs"
  let ?obj = "PlainObject \<lparr>start = trStart t i, end' = trEnd t i\<rparr>"
  let ?n = "Suc (length pre + length objs)"
  have len: "length ?h = ?n" by simp
  have upd: "(?h @ [?obj])[length pre := ArrayObject (elements ((?h @ [?obj]) ! length pre) @ [?n])] =
        pre @ ArrayObject (es @ [?n]) # (objs @ [?obj])"
    by (simp add: list_update_append nth_append)
  have step: "bufferedToArrayLoop ?h (ForeignRef t) l i (length pre) =
        bufferedToArrayLoop (pre @ ArrayObject (es @ [?n]) # (objs @ [?obj])) (ForeignRef t) l (i + 1)
          (length pre)"
    using lt upd by (subst bufferedToArrayLoop.simps) (simp add: alloc_def)
  from Suc.hyps(2) lt have k: "k = l - (i + 1)" "i + 1 \<le> l" by simp_all
  have "[i ..< l] = i # [i + 1 ..< l]"
    using lt by (simp add: upt_conv_Cons)
  moreover have "[?n ..< ?n + (l - i)] = ?n # [Suc ?n ..< Suc ?n + (l - (i + 1))]"
  proof -
    have e: "?n + (l - i) = Suc ?n + (l - (i + 1))"
      using lt by arith
    have "?n < Suc ?n + (l - (i + 1))" by arith
    then have "[?n ..< Suc ?n + (l - (i + 1))] = ?n # [Suc ?n ..< Suc ?n + (l - (i + 1))]"
      by (rule upt_conv_Cons)
    with e show ?thesis by (simp only:)
  qed
  ultimately show ?case
    using Suc.hyps(1) [OF k, of "es @ [?n]" "objs @ [?obj]"] step
    by (simp del: upt_Suc)
qed

text \<open>The store and the array after the call, in closed form.\<close>

lemma bufferedToArray_engine:
  assumes "validRef h (EngineRef arr n)"
  shows "bufferedToArray h (EngineRef arr n) =
      (h @ map (\<lambda>i. PlainObject \<lparr>start = refStart h (EngineRef arr n) i,
                                   end' = refEnd h (EngineRef arr n) i\<rparr>) [0 ..< n]
         @ [ArrayObject [length h ..< length h + n]],
       length h + n)"
proof -
  let ?es = "elements (h ! arr)"
  from assms have v: "n = length ?es" "\<forall>e \<in> set ?es. e < length h" by simp_all
  have "map (\<lambda>e. PlainObject \<lparr>start = objStart (h ! e), end' = objEnd (h ! e)\<rparr>) ?es =
        map (\<lambda>i. PlainObject \<lparr>start = objStart (h ! (?es ! i)), end' = objEnd (h ! (?es ! i))\<rparr>)
          [0 ..< length ?es]"
    by (rule nth_equalityI) simp_all
  with v cloneRecords_fresh [OF v(2)] show ?thesis
    by (simp add: cloneArray_def alloc_def)
qed

lemma bufferedToArray_foreign:
  "bufferedToArray h (ForeignRef t) =
      (h @ ArrayObject [Suc (length h) ..< Suc (length h) + trLength t] #
         map (\<lambda>i. PlainObject \<lparr>start = trStart t i, end' = trEnd t i\<rparr>) [0 ..< trLength t],
       length h)"
  using bufferedToArrayLoop_fresh [of 0 "trLength t" h "[]" "[]" t]
  by (simp add: alloc_def)

text \<open>
  Claim C8. For every ranges-capable collection, the engine's own included,
  \<^verbatim>\<open>bufferedToArray(ranges)\<close> returns an array of exactly \<open>ranges.length\<close> records, the
  i-th being the plain record \<open>{start: ranges.start(i), end: ranges.end(i)}\<close>, without a
  bitrate. The array and its records are new objects, distinct from one another and from
  every object that existed before the call, the engine's array and records among them,
  and no object that existed before the call is changed.
\<close>

theorem bufferedToArray_plain_fresh_records:
  "validRef h rs \<longrightarrow>
     (\<exists>h' a es. bufferedToArray h rs = (h', a) \<and>
        length h \<le> a \<and> a < length h' \<and> h' ! a = ArrayObject es \<and>
        length es = refLength rs \<and>
        (\<forall>i < refLength rs.
           length h \<le> es ! i \<and> es ! i < length h' \<and> es ! i \<noteq> a \<and>
           h' ! (es ! i) = PlainObject \<lparr>start = refStart h rs i, end' = refEnd h rs i\<rparr>) \<and>
        distinct es \<and> take (length h) h' = h)"
proof
  assume v: "validRef h rs"
  show "\<exists>h' a es. bufferedToArray h rs = (h', a) \<and>
        length h \<le> a \<and> a < length h' \<and> h' ! a = ArrayObject es \<and>
        length es = refLength rs \<and>
        (\<forall>i < refLength rs.
           length h \<le> es ! i \<and> es ! i < length h' \<and> es ! i \<noteq> a \<and>
           h' ! (es ! i) = PlainObject \<lparr>start = refStart h rs i, end' = refEnd h rs i\<rparr>) \<and>
        distinct es \<and> take (length h) h' = h"
  proof (cases rs)
    case (EngineRef arr n)
    let ?objs = "map (\<lambda>i. PlainObject \<lparr>start = refStart h rs i, end' = refEnd h rs i\<rparr>) [0 ..< n]"
    let ?es = "[length h ..< length h + n]"
    let ?h' = "h @ ?objs @ [ArrayObject ?es]"
    have r: "bufferedToArray h rs = (?h', length h + n)"
      using bufferedToArray_engine [of h arr n] v EngineRef by simp
    have "?h' ! (length h + n) = ArrayObject ?es"
      using nth_append_length [of "h @ ?objs" "ArrayObject ?es" "[]"] by simp
    moreover have "\<forall>i < n. ?h' ! (?es ! i) =
        PlainObject \<lparr>start = refStart h rs i, end' = refEnd h rs i\<rparr>"
      by (simp add: nth_append)
    ultimately show ?thesis
      using r EngineRef by (intro exI [of _ ?h'] exI [of _ "length h + n"] exI [of _ ?es]) simp
  next
    case (ForeignRef t)
    let ?objs = "map (\<lambda>i. PlainObject \<lparr>start = trStart t i, end' = trEnd t i\<rparr>) [0 ..< trLength t]"
    let ?es = "[Suc (length h) ..< Suc (length h) + trLength t]"
    let ?h' = "h @ ArrayObject ?es # ?objs"
    have r: "bufferedToArray h rs = (?h', length h)"
      using bufferedToArray_foreign [of h t] ForeignRef by simp
    have "?h' ! (?es ! i) = PlainObject \<lparr>start = trStart t i, end' = trEnd t i\<rparr>"
      if "i < trLength t" for i
    proof -
      from that have "?es ! i = length h + Suc i" by (simp del: upt_Suc)
      moreover have "?h' ! (length h + Suc i) = ?objs ! i"
        by (simp only: nth_append_length_plus nth_Cons_Suc)
      moreover from that have "?objs ! i = PlainObject \<lparr>start = trStart t i, end' = trEnd t i\<rparr>"
        by (simp del: upt_Suc)
      ultimately show ?thesis by (simp only:)
    qed
    moreover have "?h' ! length h = ArrayObject ?es"
      by (simp only: nth_append_length)
    ultimately show ?thesis
      using r ForeignRef
      by (intro exI [of _ ?h'] exI [of _ "length h"] exI [of _ ?es]) (simp del: upt_Suc)
  qed
qed

theorem bufferedToArray_plain_fresh_records_witness:
  "bufferedToArray
     [RangeObject \<lparr>start = 0, end' = 10, bitrate = 1\<rparr>,
      RangeObject \<lparr>start = 20, end' = 30, bitrate = 2\<rparr>, ArrayObject [0, 1]]
     (EngineRef 2 2) =
   ([RangeObject \<lparr>start = 0, end' = 10, bitrate = 1\<rparr>,
     RangeObject \<lparr>start = 20, end' = 30, bitrate = 2\<rparr>, ArrayObject [0, 1],
     PlainObject \<lparr>start = 0, end' = 10\<rparr>, PlainObject \<lparr>start = 20, end' = 30\<rparr>,
     ArrayObject [3, 4]], 5)"
proof -
  let ?h = "[RangeObject \<lparr>start = 0, end' = 10, bitrate = 1\<rparr>,
             RangeObject \<lparr>start = 20, end' = 30, bitrate = 2\<rparr>, ArrayObject [0, 1]]"
  let ?rs = "EngineRef 2 2"
  have v: "validRef ?h ?rs" by simp
  from bufferedToArray_plain_fresh_records [of ?h ?rs] v
  obtain h' a es where r: "bufferedToArray ?h ?rs = (h', a)"
    and a: "length ?h \<le> a" "a < length h'" "h' ! a = ArrayObject es"
    and l: "length es = refLength ?rs"
    by blast
  have c: "bufferedToArray ?h ?rs =
    ([RangeObject \<lparr>start = 0, end' = 10, bitrate = 1\<rparr>,
     RangeObject \<lparr>start = 20, end' = 30, bitrate = 2\<rparr>, ArrayObject [0, 1],
     PlainObject \<lparr>start = 0, end' = 10\<rparr>, PlainObject \<lparr>start = 20, end' = 30\<rparr>,
     ArrayObject [3, 4]], 5)"
    by (simp add: cloneArray_def alloc_def)
  with r a l show ?thesis by simp
qed

subsection \<open>Coverage is never lost by an insertion\<close>

lemma covered_Nil: "covered t [] = False"
  by (simp add: covered_def)

lemma covered_append: "covered t (xs @ ys) = (covered t xs \<or> covered t ys)"
  by (auto simp: covered_def)

lemma covered_nth:
  "i < length rs \<Longrightarrow>
     covered t rs = (covered t (take i rs) \<or> isPointInRange (rs ! i) t \<or> covered t (drop (Suc i) rs))"
  using id_take_nth_drop [of i rs] covered_append [of t "take i rs" "rs ! i # drop (Suc i) rs"]
  by (simp add: covered_Cons)

lemma covered_remove:
  "i < length rs \<Longrightarrow>
     covered t (spliceArr rs i (Suc 0) []) = (covered t (take i rs) \<or> covered t (drop (Suc i) rs))"
  by (simp add: spliceArr_def covered_append)

lemma covered_update:
  "i < length rs \<Longrightarrow>
     covered t (rs[i := x]) = (covered t (take i rs) \<or> isPointInRange x t \<or> covered t (drop (Suc i) rs))"
  by (simp add: upd_conv_take_nth_drop covered_append covered_Cons)

lemma covered_insert:
  "covered t (spliceArr rs i 0 [x]) = (isPointInRange x t \<or> covered t rs)"
proof -
  have "covered t rs = (covered t (take i rs) \<or> covered t (drop i rs))"
    using covered_append [of t "take i rs" "drop i rs"] by simp
  then show ?thesis
    by (auto simp: spliceArr_def covered_append covered_Cons)
qed

lemma split_list_form:
  "i < length rs \<Longrightarrow>
     (spliceArr rs (Suc i) 0 [a])[i := x] = take i rs @ [x, a] @ drop (Suc i) rs"
proof -
  assume i: "i < length rs"
  then have "take (Suc i) rs = take i rs @ [rs ! i]"
    by (simp add: take_Suc_conv_app_nth)
  then have "spliceArr rs (Suc i) 0 [a] = take i rs @ [rs ! i, a] @ drop (Suc i) rs"
    by (simp add: spliceArr_def)
  moreover have "(take i rs @ [rs ! i, a] @ drop (Suc i) rs)[i := x] = take i rs @ [x, a] @ drop (Suc i) rs"
    using i by (simp add: list_update_append)
  ultimately show ?thesis by simp
qed

lemma covered_split:
  "i < length rs \<Longrightarrow>
     covered t ((spliceArr rs (Suc i) 0 [a])[i := x]) =
       (covered t (take i rs) \<or> isPointInRange x t \<or> isPointInRange a t \<or> covered t (drop (Suc i) rs))"
  by (simp add: split_list_form covered_append covered_Cons covered_Nil)


text \<open>One turn of the scan, branch by branch.\<close>

lemma insertLoop_end:
  "\<not> index < length rs \<Longrightarrow> insertLoop rs index a = (rs, index, a)"
  by (subst insertLoop.simps) simp

lemma insertLoop_merge:
  "index < length rs \<Longrightarrow>
   areOverlappingRanges a (rs ! index) \<or> areContiguousWithRanges a (rs ! index) \<Longrightarrow>
   sameBitrate a (rs ! index) \<Longrightarrow>
   insertLoop rs index a =
     insertLoop (spliceArr rs index 1 []) index
       (unionWithOverlappingOrContiguousRange a (rs ! index) (bitrate (rs ! index)))"
  by (subst insertLoop.simps) (simp add: Let_def)

lemma insertLoop_split:
  "index < length rs \<Longrightarrow> areOverlappingRanges a (rs ! index) \<Longrightarrow>
   \<not> sameBitrate a (rs ! index) \<Longrightarrow> isContainedInto (rs ! index) a \<Longrightarrow>
   insertLoop rs index a =
     insertLoop ((spliceArr rs (Suc index) 0 [a])[index := (rs ! index)\<lparr>end' := start a\<rparr>])
       (index + 2)
       \<lparr>start = end' a, end' = end' (rs ! index), bitrate = bitrate (rs ! index)\<rparr>"
  by (subst insertLoop.simps) (simp add: Let_def)

lemma insertLoop_delete:
  "index < length rs \<Longrightarrow> areOverlappingRanges a (rs ! index) \<Longrightarrow>
   \<not> sameBitrate a (rs ! index) \<Longrightarrow> \<not> isContainedInto (rs ! index) a \<Longrightarrow>
   isContainedInto a (rs ! index) \<Longrightarrow>
   insertLoop rs index a = insertLoop (spliceArr rs index 1 []) index a"
  by (subst insertLoop.simps) (simp add: Let_def)

lemma insertLoop_trim_end:
  "index < length rs \<Longrightarrow> areOverlappingRanges a (rs ! index) \<Longrightarrow>
   \<not> sameBitrate a (rs ! index) \<Longrightarrow> \<not> isContainedInto (rs ! index) a \<Longrightarrow>
   \<not> isContainedInto a (rs ! index) \<Longrightarrow> start (rs ! index) < start a \<Longrightarrow>
   insertLoop rs index a =
     insertLoop (rs[index := (rs ! index)\<lparr>end' := start a\<rparr>]) (index + 1) a"
  by (subst insertLoop.simps) (simp add: Let_def)

lemma insertLoop_trim_start:
  "index < length rs \<Longrightarrow> areOverlappingRanges a (rs ! index) \<Longrightarrow>
   \<not> sameBitrate a (rs ! index) \<Longrightarrow> \<not> isContainedInto (rs ! index) a \<Longrightarrow>
   \<not> isContainedInto a (rs ! index) \<Longrightarrow> \<not> start (rs ! index) < start a \<Longrightarrow>
   insertLoop rs index a = (rs[index := (rs ! index)\<lparr>start := end' a\<rparr>], index, a)"
  by (subst insertLoop.simps) (simp add: Let_def)

lemma insertLoop_contiguous_stop:
  "index < length rs \<Longrightarrow> \<not> areOverlappingRanges a (rs ! index) \<Longrightarrow>
   areContiguousWithRanges a (rs ! index) \<Longrightarrow> \<not> sameBitrate a (rs ! index) \<Longrightarrow>
   insertLoop rs index a = (rs, index, a)"
  by (subst insertLoop.simps) (simp add: Let_def)

lemma insertLoop_apart:
  "index < length rs \<Longrightarrow> \<not> areOverlappingRanges a (rs ! index) \<Longrightarrow>
   \<not> areContiguousWithRanges a (rs ! index) \<Longrightarrow>
   insertLoop rs index a =
     (if (index = 0 \<and> isOrdered a (rs ! 0)) \<or>
         (index \<noteq> 0 \<and> isOrdered (rs ! (index - 1)) a \<and> isOrdered a (rs ! index))
      then (rs, index, a) else insertLoop rs (index + 1) a)"
  by (subst insertLoop.simps) (simp add: Let_def)

lemma insertLoop_covered:
  assumes "start a < end' a" "covered t rs \<or> isPointInRange a t"
    "insertLoop rs index a = (rs', index', a')"
  shows "covered t rs' \<or> isPointInRange a' t"
  using assms
proof (induction "length rs - index" arbitrary: rs index a rule: less_induct)
  case less
  show ?case
  proof (cases "index < length rs")
    case False
    with less.prems insertLoop_end [OF False, of a] show ?thesis by simp
  next
    case True
    let ?cur = "rs ! index"
    note cov = covered_nth [OF True, of t]
    consider
      (merge) "areOverlappingRanges a ?cur \<or> areContiguousWithRanges a ?cur" "sameBitrate a ?cur"
      | (split) "areOverlappingRanges a ?cur" "\<not> sameBitrate a ?cur" "isContainedInto ?cur a"
      | (delete) "areOverlappingRanges a ?cur" "\<not> sameBitrate a ?cur" "\<not> isContainedInto ?cur a"
          "isContainedInto a ?cur"
      | (trim_end) "areOverlappingRanges a ?cur" "\<not> sameBitrate a ?cur" "\<not> isContainedInto ?cur a"
          "\<not> isContainedInto a ?cur" "start ?cur < start a"
      | (trim_start) "areOverlappingRanges a ?cur" "\<not> sameBitrate a ?cur" "\<not> isContainedInto ?cur a"
          "\<not> isContainedInto a ?cur" "\<not> start ?cur < start a"
      | (stop) "\<not> areOverlappingRanges a ?cur" "areContiguousWithRanges a ?cur" "\<not> sameBitrate a ?cur"
      | (apart) "\<not> areOverlappingRanges a ?cur" "\<not> areContiguousWithRanges a ?cur"
      by blast
    then show ?thesis
    proof cases
      case merge
      let ?rs1 = "spliceArr rs index 1 []"
      let ?a1 = "unionWithOverlappingOrContiguousRange a ?cur (bitrate ?cur)"
      have eq: "insertLoop rs index a = insertLoop ?rs1 index ?a1"
        using insertLoop_merge [OF True merge] .
      have m: "length ?rs1 - index < length rs - index"
        using True by (simp add: spliceArr_def)
      have p1: "start ?a1 < end' ?a1"
        using less.prems(1) by (simp add: unionWithOverlappingOrContiguousRange_def min_def max_def)
      have "isPointInRange ?cur t \<or> isPointInRange a t \<Longrightarrow> isPointInRange ?a1 t"
        by (auto simp: isPointInRange_def unionWithOverlappingOrContiguousRange_def)
      with less.prems(2) cov have p2: "covered t ?rs1 \<or> isPointInRange ?a1 t"
        by (auto simp: covered_remove [OF True])
      from less.hyps [OF m p1 p2] eq less.prems(3) show ?thesis by simp
    next
      case split
      let ?rs1 = "(spliceArr rs (Suc index) 0 [a])[index := ?cur\<lparr>end' := start a\<rparr>]"
      let ?a1 = "\<lparr>start = end' a, end' = end' ?cur, bitrate = bitrate ?cur\<rparr>"
      have eq: "insertLoop rs index a = insertLoop ?rs1 (index + 2) ?a1"
        using insertLoop_split [OF True split] .
      have m: "length ?rs1 - (index + 2) < length rs - index"
        using True by (simp add: spliceArr_def)
      have p1: "start ?a1 < end' ?a1"
        using split(3) by (simp add: isContainedInto_def isPointInRange_def)
      have "isPointInRange ?cur t \<Longrightarrow>
            isPointInRange (?cur\<lparr>end' := start a\<rparr>) t \<or> isPointInRange a t \<or> isPointInRange ?a1 t"
        by (auto simp: isPointInRange_def)
      with less.prems(2) cov have p2: "covered t ?rs1 \<or> isPointInRange ?a1 t"
        by (auto simp: covered_split [OF True])
      from less.hyps [OF m p1 p2] eq less.prems(3) show ?thesis by simp
    next
      case delete
      let ?rs1 = "spliceArr rs index 1 []"
      have eq: "insertLoop rs index a = insertLoop ?rs1 index a"
        using insertLoop_delete [OF True delete] .
      have m: "length ?rs1 - index < length rs - index"
        using True by (simp add: spliceArr_def)
      have "isPointInRange ?cur t \<Longrightarrow> isPointInRange a t"
        using delete(4) by (auto simp: isPointInRange_def isContainedInto_def)
      with less.prems(2) cov have p2: "covered t ?rs1 \<or> isPointInRange a t"
        by (auto simp: covered_remove [OF True])
      from less.hyps [OF m less.prems(1) p2] eq less.prems(3) show ?thesis by simp
    next
      case trim_end
      let ?rs1 = "rs[index := ?cur\<lparr>end' := start a\<rparr>]"
      have eq: "insertLoop rs index a = insertLoop ?rs1 (index + 1) a"
        using insertLoop_trim_end [OF True trim_end] .
      have m: "length ?rs1 - (index + 1) < length rs - index"
        using True by simp
      have "isPointInRange ?cur t \<Longrightarrow> isPointInRange (?cur\<lparr>end' := start a\<rparr>) t \<or> isPointInRange a t"
        using trim_end(3,5) less.prems(1) by (auto simp: isPointInRange_def isContainedInto_def)
      with less.prems(2) cov have p2: "covered t ?rs1 \<or> isPointInRange a t"
        by (auto simp: covered_update [OF True])
      from less.hyps [OF m less.prems(1) p2] eq less.prems(3) show ?thesis by simp
    next
      case trim_start
      let ?rs1 = "rs[index := ?cur\<lparr>start := end' a\<rparr>]"
      have eq: "insertLoop rs index a = (?rs1, index, a)"
        using insertLoop_trim_start [OF True trim_start] .
      have "isPointInRange ?cur t \<Longrightarrow> isPointInRange (?cur\<lparr>start := end' a\<rparr>) t \<or> isPointInRange a t"
        using trim_start(5) by (auto simp: isPointInRange_def)
      with less.prems(2) cov have "covered t ?rs1 \<or> isPointInRange a t"
        by (auto simp: covered_update [OF True])
      with eq less.prems(3) show ?thesis by simp
    next
      case stop
      from insertLoop_contiguous_stop [OF True stop] less.prems show ?thesis by simp
    next
      case apart
      note eq = insertLoop_apart [OF True apart]
      show ?thesis
      proof (cases "(index = 0 \<and> isOrdered a (rs ! 0)) \<or>
         (index \<noteq> 0 \<and> isOrdered (rs ! (index - 1)) a \<and> isOrdered a (rs ! index))")
        case True
        with eq less.prems show ?thesis by simp
      next
        case False
        have eq': "insertLoop rs index a = insertLoop rs (index + 1) a"
          using eq False by (simp only: if_False)
        have m: "length rs - (index + 1) < length rs - index"
          using \<open>index < length rs\<close> by simp
        from less.hyps [OF m less.prems(1) less.prems(2)] eq' less.prems(3) show ?thesis by simp
      qed
    qed
  qed
qed


lemma removeEmptyLoop_covered:
  "covered t (removeEmptyLoop rs index) = covered t rs"
proof (induction rs index rule: removeEmptyLoop.induct)
  case (1 rs index)
  show ?case
  proof (cases "index < length rs")
    case False
    then show ?thesis by (subst removeEmptyLoop.simps) simp
  next
    case True
    show ?thesis
    proof (cases "start (rs ! index) = end' (rs ! index)")
      case empty: True
      then have "\<not> isPointInRange (rs ! index) t"
        by (simp add: isPointInRange_def)
      then have "covered t (spliceArr rs index 1 []) = covered t rs"
        using covered_nth [OF True, of t] by (simp add: covered_remove [OF True])
      moreover have "removeEmptyLoop rs index = removeEmptyLoop (spliceArr rs index 1 []) (index + 2)"
        using True empty by (subst removeEmptyLoop.simps) simp
      ultimately show ?thesis
        using "1.IH"(1) [OF True empty] by simp
    next
      case False
      have "removeEmptyLoop rs index = removeEmptyLoop rs (index + 1)"
        using True False by (subst removeEmptyLoop.simps) simp
      then show ?thesis
        using "1.IH"(2) [OF True False] by simp
    qed
  qed
qed

lemma covered_pair:
  assumes "Suc j < length rs"
  shows "covered t rs =
      (covered t (take j rs) \<or> isPointInRange (rs ! j) t \<or> isPointInRange (rs ! Suc j) t \<or>
       covered t (drop (Suc (Suc j)) rs))"
proof -
  from assms have "j < length rs" by simp
  from covered_nth [OF this, of t] Cons_nth_drop_Suc [OF assms]
  show ?thesis
    by (metis covered_Cons)
qed

lemma covered_merge_pair:
  "Suc j < length rs \<Longrightarrow>
     covered t (spliceArr rs j 2 [u]) =
       (covered t (take j rs) \<or> isPointInRange u t \<or> covered t (drop (Suc (Suc j)) rs))"
  by (simp add: spliceArr_def covered_append covered_Cons)

lemma mergeContiguousLoop_covered:
  "covered t rs \<Longrightarrow> covered t (mergeContiguousLoop rs index)"
proof (induction rs index rule: mergeContiguousLoop.induct)
  case (1 rs index)
  show ?case
  proof (cases "index < length rs \<and> 0 < index")
    case False
    with "1.prems" show ?thesis by (subst mergeContiguousLoop.simps) (simp only: if_False)
  next
    case True
    let ?p = "rs ! (index - 1)"
    let ?c = "rs ! index"
    let ?u = "unionWithOverlappingOrContiguousRange ?p ?c (bitrate ?c)"
    from True have sj: "Suc (index - 1) = index" "Suc (index - 1) < length rs" by simp_all
    show ?thesis
    proof (cases "sameBitrate ?p ?c \<and> areContiguousWithRanges ?p ?c")
      case merge: True
      have eq: "mergeContiguousLoop rs index = mergeContiguousLoop (spliceArr rs (index - 1) 2 [?u]) index"
        using True merge by (subst mergeContiguousLoop.simps) (simp add: Let_def)
      have cp: "covered t rs =
          (covered t (take (index - 1) rs) \<or> isPointInRange ?p t \<or> isPointInRange ?c t \<or>
           covered t (drop (Suc index) rs))"
        using covered_pair [OF sj(2), of t] sj(1) by simp
      have cm: "covered t (spliceArr rs (index - 1) 2 [?u]) =
          (covered t (take (index - 1) rs) \<or> isPointInRange ?u t \<or> covered t (drop (Suc index) rs))"
        using covered_merge_pair [OF sj(2), of t ?u] sj(1) by simp
      have "isPointInRange ?p t \<or> isPointInRange ?c t \<Longrightarrow> isPointInRange ?u t"
        by (auto simp: isPointInRange_def unionWithOverlappingOrContiguousRange_def)
      with "1.prems" cp cm have "covered t (spliceArr rs (index - 1) 2 [?u])"
        by blast
      from "1.IH"(1) [OF True refl refl merge this] eq show ?thesis
        by simp
    next
      case False
      have eq: "mergeContiguousLoop rs index = mergeContiguousLoop rs (index + 1)"
        by (subst mergeContiguousLoop.simps) (simp only: True False Let_def if_True if_False simp_thms)
      from "1.IH"(2) [OF True refl refl False "1.prems"] eq show ?thesis
        by simp
    qed
  qed
qed

lemma insertInto_covered:
  assumes "st < en" "covered t rs \<or> (st \<le> t \<and> t < en)"
  shows "\<exists>rs'. insertInto rs b st en = Inr rs' \<and> covered t rs'"
proof -
  let ?a = "\<lparr>start = st, end' = en, bitrate = b\<rparr>"
  obtain rs1 index1 a1 where l: "insertLoop rs 0 ?a = (rs1, index1, a1)"
    by (cases "insertLoop rs 0 ?a") auto
  have "covered t rs \<or> isPointInRange ?a t"
    using assms(2) by (simp add: isPointInRange_def)
  from insertLoop_covered [OF _ this l] assms(1)
  have "covered t rs1 \<or> isPointInRange a1 t" by simp
  then have "covered t (spliceArr rs1 index1 0 [a1])"
    by (auto simp: covered_insert)
  then have "covered t (mergeContiguousRanges (removeEmptyRanges (spliceArr rs1 index1 0 [a1])))"
    by (simp add: mergeContiguousRanges_def removeEmptyRanges_def mergeContiguousLoop_covered
        removeEmptyLoop_covered)
  moreover have "insertInto rs b st en =
      Inr (mergeContiguousRanges (removeEmptyRanges (spliceArr rs1 index1 0 [a1])))"
    using assms(1) l by (simp add: insertInto_def assert_def)
  ultimately show ?thesis by simp
qed

text \<open>
  Claim C10. A valid \<^verbatim>\<open>insert(b, s, e)\<close> (\<open>0 \<le> s < e\<close>), in either build and on any
  engine state, returns normally, and every timestamp that lay in a stored range before
  the call, as well as every timestamp of \<open>[s, e)\<close>, lies in a stored range after it.
\<close>

theorem insert_keeps_coverage:
  "0 \<le> st \<and> st < en \<longrightarrow>
     (\<exists>rs'. insert' dev this b st en = (Inr rs', \<lparr>ranges = rs', length' = length rs'\<rparr>) \<and>
        (\<forall>t. covered t (ranges this) \<or> (st \<le> t \<and> t < en) \<longrightarrow> covered t rs'))"
proof
  assume v: "0 \<le> st \<and> st < en"
  then obtain rs' where r: "insertInto (ranges this) b st en = Inr rs'"
    using insertInto_covered [of st en st "ranges this" b] by auto
  have "\<forall>t. covered t (ranges this) \<or> (st \<le> t \<and> t < en) \<longrightarrow> covered t rs'"
    using insertInto_covered [of st en _ "ranges this" b] v r by auto
  moreover have "insert' dev this b st en = (Inr rs', \<lparr>ranges = rs', length' = length rs'\<rparr>)"
    using v r by (simp add: insert'_def assert_def)
  ultimately show "\<exists>rs'. insert' dev this b st en = (Inr rs', \<lparr>ranges = rs', length' = length rs'\<rparr>) \<and>
        (\<forall>t. covered t (ranges this) \<or> (st \<le> t \<and> t < en) \<longrightarrow> covered t rs')"
    by blast
qed

theorem insert_keeps_coverage_witness:
  "covered 2 (ranges (snd (insert' True \<lparr>ranges = [\<lparr>start = 0, end' = 10, bitrate = 1\<rparr>], length' = 1\<rparr> 2 5 15)))
   \<and> covered 12 (ranges (snd (insert' True \<lparr>ranges = [\<lparr>start = 0, end' = 10, bitrate = 1\<rparr>], length' = 1\<rparr> 2 5 15)))"
proof -
  from insert_keeps_coverage
         [of 5 15 True "\<lparr>ranges = [\<lparr>start = 0, end' = 10, bitrate = 1\<rparr>], length' = 1\<rparr>" 2]
  obtain rs' where
    e: "insert' True \<lparr>ranges = [\<lparr>start = 0, end' = 10, bitrate = 1\<rparr>], length' = 1\<rparr> 2 5 15 =
          (Inr rs', \<lparr>ranges = rs', length' = length rs'\<rparr>)"
    and c: "\<forall>t. covered t [\<lparr>start = 0, end' = 10, bitrate = 1\<rparr>] \<or> (5 \<le> t \<and> t < 15) \<longrightarrow> covered t rs'"
    by auto
  have "covered 2 [\<lparr>start = 0, end' = 10, bitrate = 1\<rparr>]"
    by (simp add: covered_def isPointInRange_def)
  with c have "covered 2 rs'" by blast
  moreover from c have "covered 12 rs'" by simp
  ultimately show ?thesis unfolding e by simp
qed

subsection \<open>Insertion inside a range of another bitrate\<close>

lemma adjacentPairsOk_successively: "adjacentPairsOk rs = successively pairOk rs"
  by (induction rs rule: adjacentPairsOk.induct) (simp_all add: pairOk_def)

lemma removeEmptyLoop_id:
  "\<forall>r \<in> set rs. start r \<noteq> end' r \<Longrightarrow> removeEmptyLoop rs index = rs"
proof (induction rs index rule: removeEmptyLoop.induct)
  case (1 rs index)
  show ?case
  proof (cases "index < length rs")
    case False
    then show ?thesis by (subst removeEmptyLoop.simps) simp
  next
    case True
    with "1.prems" have ne: "start (rs ! index) \<noteq> end' (rs ! index)" by simp
    have "removeEmptyLoop rs index = removeEmptyLoop rs (index + 1)"
      using True ne by (subst removeEmptyLoop.simps) simp
    with "1.IH"(2) [OF True ne "1.prems"] show ?thesis by simp
  qed
qed

lemma mergeContiguousLoop_id:
  "successively notMerged rs \<Longrightarrow> mergeContiguousLoop rs index = rs"
proof (induction rs index rule: mergeContiguousLoop.induct)
  case (1 rs index)
  show ?case
  proof (cases "index < length rs \<and> 0 < index")
    case False
    then show ?thesis by (subst mergeContiguousLoop.simps) (simp only: if_False)
  next
    case True
    then have "Suc (index - 1) < length rs" "Suc (index - 1) = index" by simp_all
    with successively_nth [OF "1.prems", of "index - 1"]
    have nm: "\<not> (sameBitrate (rs ! (index - 1)) (rs ! index) \<and>
                 areContiguousWithRanges (rs ! (index - 1)) (rs ! index))"
      by (simp add: notMerged_def)
    have "mergeContiguousLoop rs index = mergeContiguousLoop rs (index + 1)"
      by (subst mergeContiguousLoop.simps) (simp only: True nm Let_def if_True if_False simp_thms)
    with "1.IH"(2) [OF True refl refl nm "1.prems"] show ?thesis by simp
  qed
qed

lemma insertLoop_skip:
  assumes "\<forall>r \<in> set pre. start r < end' r \<and> end' r + EPSILON \<le> start a"
    and "start a < end' a" and "index \<le> length pre"
  shows "insertLoop (pre @ rest) index a = insertLoop (pre @ rest) (length pre) a"
  using assms(3)
proof (induction "length pre - index" arbitrary: index rule: less_induct)
  case less
  show ?case
  proof (cases "index = length pre")
    case True
    then show ?thesis by simp
  next
    case False
    with less.prems have lt: "index < length pre" by simp
    then have il: "index < length (pre @ rest)" by simp
    have nth: "(pre @ rest) ! index = pre ! index"
      using lt by (simp add: nth_append)
    from lt assms(1) have r: "start (pre ! index) < end' (pre ! index)"
      "end' (pre ! index) + EPSILON \<le> start a"
      by simp_all
    have e: "0 < EPSILON" by (simp add: EPSILON_def)
    have nov: "\<not> areOverlappingRanges a ((pre @ rest) ! index)"
      using r e assms(2) unfolding nth by (auto simp: areOverlappingRanges_def isPointInRange_def)
    have ncg: "\<not> areContiguousWithRanges a ((pre @ rest) ! index)"
      using r e assms(2) unfolding nth by (auto simp: areContiguousWithRanges_def nearlyEqual_def)
    have no0: "\<not> (index = 0 \<and> isOrdered a ((pre @ rest) ! 0))"
      using r e assms(2) nth by (auto simp: isOrdered_def)
    have no1: "\<not> (index \<noteq> 0 \<and> isOrdered ((pre @ rest) ! (index - 1)) a \<and>
                  isOrdered a ((pre @ rest) ! index))"
      using r e assms(2) unfolding nth by (auto simp: isOrdered_def)
    have "insertLoop (pre @ rest) index a = insertLoop (pre @ rest) (index + 1) a"
      using insertLoop_apart [OF il nov ncg] no0 no1 by (simp only: if_False simp_thms)
    moreover have "insertLoop (pre @ rest) (index + 1) a = insertLoop (pre @ rest) (length pre) a"
      using less.hyps [of "index + 1"] lt by simp
    ultimately show ?thesis by simp
  qed
qed


lemma insertLoop_contained:
  assumes b: "bitrate cur \<noteq> b" and s: "start cur < st" "st < en" "en < end' cur"
    and pre: "\<forall>r \<in> set pre. start r < end' r \<and> end' r + EPSILON \<le> st"
    and post: "post \<noteq> [] \<longrightarrow> end' cur \<le> start (hd post) \<and> start (hd post) < end' (hd post) \<and>
                 pairOk cur (hd post)"
  shows "insertLoop (pre @ cur # post) 0 \<lparr>start = st, end' = en, bitrate = b\<rparr> =
           (pre @ cur\<lparr>end' := st\<rparr> # \<lparr>start = st, end' = en, bitrate = b\<rparr> # post,
            length pre + 2,
            \<lparr>start = en, end' = end' cur, bitrate = bitrate cur\<rparr>)"
proof -
  let ?a = "\<lparr>start = st, end' = en, bitrate = b\<rparr>"
  let ?R = "\<lparr>start = en, end' = end' cur, bitrate = bitrate cur\<rparr>"
  let ?rs = "pre @ cur # post"
  let ?L = "pre @ cur\<lparr>end' := st\<rparr> # ?a # post"
  let ?n = "length pre"
  have skip: "insertLoop ?rs 0 ?a = insertLoop ?rs ?n ?a"
    using insertLoop_skip [of pre ?a 0 "cur # post"] pre s by simp
  have il: "?n < length ?rs" by simp
  have nth: "?rs ! ?n = cur" by simp
  have ov: "areOverlappingRanges ?a (?rs ! ?n)"
    unfolding nth using s by (simp add: areOverlappingRanges_def isPointInRange_def)
  have nsb: "\<not> sameBitrate ?a (?rs ! ?n)"
    unfolding nth using b by (simp add: sameBitrate_def)
  have ci: "isContainedInto (?rs ! ?n) ?a"
    unfolding nth using s by (simp add: isContainedInto_def isPointInRange_def)
  have "(spliceArr ?rs (Suc ?n) 0 [?a])[?n := (?rs ! ?n)\<lparr>end' := start ?a\<rparr>] = ?L"
    using split_list_form [OF il, of ?a "(?rs ! ?n)\<lparr>end' := start ?a\<rparr>"] by simp
  with insertLoop_split [OF il ov nsb ci]
  have split: "insertLoop ?rs ?n ?a = insertLoop ?L (?n + 2) ?R"
    by simp
  have stop: "insertLoop ?L (?n + 2) ?R = (?L, ?n + 2, ?R)"
  proof (cases post)
    case Nil
    then show ?thesis using insertLoop_end [of "?n + 2" ?L ?R] by simp
  next
    case (Cons p ps)
    with post have p: "end' cur \<le> start p" "start p < end' p" "pairOk cur p" by simp_all
    have il2: "?n + 2 < length ?L" using Cons by simp
    have nth2: "?L ! (?n + 2) = p"
      using Cons nth_append_length_plus [of pre "cur\<lparr>end' := st\<rparr> # ?a # post" 2] by simp
    have nth1: "?L ! (?n + 2 - 1) = ?a"
      using nth_append_length_plus [of pre "cur\<lparr>end' := st\<rparr> # ?a # post" 1] by simp
    have nov: "\<not> areOverlappingRanges ?R (?L ! (?n + 2))"
      unfolding nth2 using p s by (auto simp: areOverlappingRanges_def isPointInRange_def)
    show ?thesis
    proof (cases "areContiguousWithRanges ?R (?L ! (?n + 2))")
      case True
      have "\<not> sameBitrate ?R (?L ! (?n + 2))"
      proof
        assume "sameBitrate ?R (?L ! (?n + 2))"
        then have "sameBitrate cur p" unfolding nth2 by (simp add: sameBitrate_def)
        with p(3) have "\<not> areContiguousWithRanges cur p" by (simp add: pairOk_def)
        with True p s show False
          unfolding nth2 by (auto simp: areContiguousWithRanges_def nearlyEqual_def)
      qed
      from insertLoop_contiguous_stop [OF il2 nov True this] show ?thesis .
    next
      case False
      have ord: "(?n + 2 \<noteq> 0 \<and> isOrdered (?L ! (?n + 2 - 1)) ?R \<and> isOrdered ?R (?L ! (?n + 2)))"
        unfolding nth1 nth2 using p by (simp add: isOrdered_def)
      from insertLoop_apart [OF il2 nov False] ord show ?thesis
        by (simp only: if_True simp_thms)
    qed
  qed
  from skip split stop show ?thesis by simp
qed

lemma insertInto_contained:
  assumes b: "bitrate cur \<noteq> b" and s: "start cur < st" "st < en" "en < end' cur"
    and pre: "\<forall>r \<in> set pre. start r < end' r \<and> end' r + EPSILON \<le> st"
    and post: "\<forall>r \<in> set post. start r < end' r" "post \<noteq> [] \<longrightarrow> end' cur \<le> start (hd post)"
    and inv: "adjacentPairsOk (pre @ cur # post)"
  shows "insertInto (pre @ cur # post) b st en =
           Inr (pre @ [cur\<lparr>end' := st\<rparr>, \<lparr>start = st, end' = en, bitrate = b\<rparr>,
                       \<lparr>start = en, end' = end' cur, bitrate = bitrate cur\<rparr>] @ post)"
proof -
  let ?a = "\<lparr>start = st, end' = en, bitrate = b\<rparr>"
  let ?l = "cur\<lparr>end' := st\<rparr>"
  let ?R = "\<lparr>start = en, end' = end' cur, bitrate = bitrate cur\<rparr>"
  let ?F = "pre @ [?l, ?a, ?R] @ post"
  from inv have sc: "successively pairOk pre" "successively pairOk (cur # post)"
    "pre = [] \<or> pairOk (last pre) cur"
    by (simp_all add: adjacentPairsOk_successively successively_append_iff)
  from sc(2) have sp: "post = [] \<or> pairOk cur (hd post)" "successively pairOk post"
    by (auto simp: successively_Cons)
  have nm: "\<And>xs. successively pairOk xs \<Longrightarrow> successively notMerged xs"
    by (erule successively_mono) (simp add: pairOk_def notMerged_def)
  have hp: "post \<noteq> [] \<longrightarrow> end' cur \<le> start (hd post) \<and> start (hd post) < end' (hd post) \<and>
                 pairOk cur (hd post)"
    using post sp(1) by auto
  have loop: "insertLoop (pre @ cur # post) 0 ?a =
      (pre @ ?l # ?a # post, length pre + 2, ?R)"
    using insertLoop_contained [OF b s pre hp] .
  have spl: "spliceArr (pre @ ?l # ?a # post) (length pre + 2) 0 [?R] = ?F"
    by (simp add: spliceArr_def)
  have ne: "\<forall>r \<in> set ?F. start r \<noteq> end' r"
    using pre post(1) s by auto
  have j1: "pre = [] \<or> notMerged (last pre) ?l"
  proof (cases "pre = []")
    case True
    then show ?thesis by simp
  next
    case False
    with pre have lp: "start (last pre) < end' (last pre)" "end' (last pre) + EPSILON \<le> st"
      by simp_all
    from False sc(3) have "pairOk (last pre) cur" by simp
    with lp s have "notMerged (last pre) ?l"
      by (auto simp: pairOk_def notMerged_def sameBitrate_def areContiguousWithRanges_def
          nearlyEqual_def)
    then show ?thesis by simp
  qed
  have j2: "notMerged ?l ?a" "notMerged ?a ?R"
    using b by (simp_all add: notMerged_def sameBitrate_def)
  have j3: "post = [] \<or> notMerged ?R (hd post)"
  proof (cases "post = []")
    case True
    then show ?thesis by simp
  next
    case False
    with hp have p: "end' cur \<le> start (hd post)" "start (hd post) < end' (hd post)"
      "pairOk cur (hd post)"
      by simp_all
    with s have "notMerged ?R (hd post)"
      by (auto simp: pairOk_def notMerged_def sameBitrate_def areContiguousWithRanges_def
          nearlyEqual_def)
    then show ?thesis by simp
  qed
  have "successively notMerged ?F"
    using nm [OF sc(1)] nm [OF sp(2)] j1 j2 j3
    by (simp add: successively_append_iff successively_Cons)
  then have "mergeContiguousRanges (removeEmptyRanges ?F) = ?F"
    using removeEmptyLoop_id [OF ne, of 0]
    by (simp add: mergeContiguousRanges_def removeEmptyRanges_def mergeContiguousLoop_id)
  with loop spl s show ?thesis
    by (simp add: insertInto_def assert_def)
qed


text \<open>
  Claim C2, as stated, fails. On the engine holding \<open>{0, 5, bitrate 2}\<close> and
  \<open>{5, 20, bitrate 1}\<close>, the candidate \<open>{5 + 2^-20, 10, bitrate 2}\<close> lies entirely inside
  the second range, of another bitrate. The scan first merges it with the first range, which
  has its bitrate and ends within the tolerance of its start; the result is
  \<open>{0, 10, bitrate 2}\<close>, \<open>{10, 20, bitrate 1}\<close>, with no left remainder.
\<close>

theorem insert_contained_merges_with_neighbour:
  "ranges (inserts False newBufferedRanges [(2, 0, 5), (1, 5, 20)]) =
     [\<lparr>start = 0, end' = 5, bitrate = 2\<rparr>, \<lparr>start = 5, end' = 20, bitrate = 1\<rparr>]
   \<and> isContainedInto \<lparr>start = 5, end' = 20, bitrate = 1\<rparr>
        \<lparr>start = 5 + 1 / 1048576, end' = 10, bitrate = 2\<rparr>
   \<and> ranges (inserts False newBufferedRanges [(2, 0, 5), (1, 5, 20), (2, 5 + 1 / 1048576, 10)]) =
     [\<lparr>start = 0, end' = 10, bitrate = 2\<rparr>, \<lparr>start = 10, end' = 20, bitrate = 1\<rparr>]"
  by (simp add: eval_defs)

text \<open>
  Claim C2 as amended. Let the engine's list satisfy the invariant on adjacent pairs and
  hold no zero-length range, let the candidate lie strictly inside one existing range of
  another bitrate (\<open>existing.start < s < e < existing.end\<close>), let every earlier range end
  at least \<open>\<epsilon>\<close> before \<open>s\<close>, and let the next range, if any, start at or after
  \<open>existing.end\<close>. Then \<^verbatim>\<open>insert\<close> replaces the existing range by the left remainder
  \<open>existing.start..s\<close>, the candidate and the right remainder \<open>e..existing.end\<close>, both
  remainders of the old bitrate, and leaves every other range as it was. In particular
  \<^verbatim>\<open>insert(1, 0, 20)\<close> then \<^verbatim>\<open>insert(2, 5, 10)\<close> on an empty engine give
  \<open>{0, 5, 1}\<close>, \<open>{5, 10, 2}\<close>, \<open>{10, 20, 1}\<close>.
\<close>

theorem insert_contained_splits:
  "(ranges this = pre @ cur # post \<and> bitrate cur \<noteq> b \<and>
    0 \<le> st \<and> start cur < st \<and> st < en \<and> en < end' cur \<and>
    (\<forall>r \<in> set pre. start r < end' r \<and> end' r + EPSILON \<le> st) \<and>
    (\<forall>r \<in> set post. start r < end' r) \<and>
    (post \<noteq> [] \<longrightarrow> end' cur \<le> start (hd post)) \<and>
    adjacentPairsOk (pre @ cur # post)
    \<longrightarrow>
    fst (insert' dev this b st en) =
      Inr (pre @ [cur\<lparr>end' := st\<rparr>, \<lparr>start = st, end' = en, bitrate = b\<rparr>,
                  \<lparr>start = en, end' = end' cur, bitrate = bitrate cur\<rparr>] @ post) \<and>
    ranges (snd (insert' dev this b st en)) =
      pre @ [cur\<lparr>end' := st\<rparr>, \<lparr>start = st, end' = en, bitrate = b\<rparr>,
             \<lparr>start = en, end' = end' cur, bitrate = bitrate cur\<rparr>] @ post)
   \<and> ranges (inserts dev newBufferedRanges [(1, 0, 20), (2, 5, 10)]) =
       [\<lparr>start = 0, end' = 5, bitrate = 1\<rparr>, \<lparr>start = 5, end' = 10, bitrate = 2\<rparr>,
        \<lparr>start = 10, end' = 20, bitrate = 1\<rparr>]"
proof -
  have ex: "ranges (inserts dev newBufferedRanges [(1, 0, 20), (2, 5, 10)]) =
       [\<lparr>start = 0, end' = 5, bitrate = 1\<rparr>, \<lparr>start = 5, end' = 10, bitrate = 2\<rparr>,
        \<lparr>start = 10, end' = 20, bitrate = 1\<rparr>]"
    by (cases dev) (simp_all add: eval_defs)
  have gen: "fst (insert' dev this b st en) =
      Inr (pre @ [cur\<lparr>end' := st\<rparr>, \<lparr>start = st, end' = en, bitrate = b\<rparr>,
                  \<lparr>start = en, end' = end' cur, bitrate = bitrate cur\<rparr>] @ post) \<and>
    ranges (snd (insert' dev this b st en)) =
      pre @ [cur\<lparr>end' := st\<rparr>, \<lparr>start = st, end' = en, bitrate = b\<rparr>,
             \<lparr>start = en, end' = end' cur, bitrate = bitrate cur\<rparr>] @ post"
    if h: "ranges this = pre @ cur # post \<and> bitrate cur \<noteq> b \<and>
      0 \<le> st \<and> start cur < st \<and> st < en \<and> en < end' cur \<and>
      (\<forall>r \<in> set pre. start r < end' r \<and> end' r + EPSILON \<le> st) \<and>
      (\<forall>r \<in> set post. start r < end' r) \<and>
      (post \<noteq> [] \<longrightarrow> end' cur \<le> start (hd post)) \<and>
      adjacentPairsOk (pre @ cur # post)"
  proof -
    from h have "insertInto (ranges this) b st en =
        Inr (pre @ [cur\<lparr>end' := st\<rparr>, \<lparr>start = st, end' = en, bitrate = b\<rparr>,
                    \<lparr>start = en, end' = end' cur, bitrate = bitrate cur\<rparr>] @ post)"
      using insertInto_contained [of cur b st en pre post] by simp
    with h show ?thesis
      by (simp add: insert'_def assert_def)
  qed
  from ex gen show ?thesis by blast
qed

theorem insert_contained_splits_witness:
  "ranges (snd (insert' True
      \<lparr>ranges = [\<lparr>start = 0, end' = 2, bitrate = 2\<rparr>, \<lparr>start = 3, end' = 20, bitrate = 1\<rparr>,
                 \<lparr>start = 20, end' = 30, bitrate = 2\<rparr>], length' = 3\<rparr> 2 5 10)) =
     [\<lparr>start = 0, end' = 2, bitrate = 2\<rparr>, \<lparr>start = 3, end' = 5, bitrate = 1\<rparr>,
      \<lparr>start = 5, end' = 10, bitrate = 2\<rparr>, \<lparr>start = 10, end' = 20, bitrate = 1\<rparr>,
      \<lparr>start = 20, end' = 30, bitrate = 2\<rparr>]"
  using insert_contained_splits
          [of "\<lparr>ranges = [\<lparr>start = 0, end' = 2, bitrate = 2\<rparr>, \<lparr>start = 3, end' = 20, bitrate = 1\<rparr>,
                 \<lparr>start = 20, end' = 30, bitrate = 2\<rparr>], length' = 3\<rparr>"
              "[\<lparr>start = 0, end' = 2, bitrate = 2\<rparr>]" "\<lparr>start = 3, end' = 20, bitrate = 1\<rparr>"
              "[\<lparr>start = 20, end' = 30, bitrate = 2\<rparr>]" 2 5 10 True]
  by (simp add: EPSILON_def sameBitrate_def areContiguousWithRanges_def nearlyEqual_def)

end
